theory Spec2Isabelle
  imports Main "HOL-Library.Word" "HOL-Library.Sublist"
begin

section \<open>Data model\<close>

text \<open>
  Go strings are byte sequences: a \<^typ>\<open>string\<close> here is the list of the bytes, and
  \<open>length\<close> is Go's \<open>len\<close>.  The three fields of \<open>Version\<close> are \<open>uint64\<close>.
\<close>

type_synonym uint64 = "64 word"

text \<open>A decoded code point.  Go's \<open>rune\<close> is \<open>int32\<close>; decoding only yields values from 0 on.\<close>

type_synonym rune = nat

record Version =
  Major :: uint64
  Minor :: uint64
  Patch :: uint64

text \<open>
  The source builds its errors as messages (\<open>errors.New\<close>, \<open>fmt.Errorf\<close>) or passes on the
  \<open>*strconv.NumError\<close> of \<open>strconv.ParseUint\<close>.  Each message is one constructor:
  \<^item> \<open>EmptyInput\<close>: "Version string empty";
  \<^item> \<open>WrongFieldCount\<close>: "Major.Minor.Patch elements not found";
  \<^item> \<open>InvalidCharacters f p\<close>: "Invalid character(s) found in \<open>f\<close> number \<open>%q\<close>", \<open>p\<close> the
    part's raw text;
  \<^item> \<open>LeadingZero f p\<close>: "\<open>f\<close> number must not contain leading zeroes \<open>%q\<close>";
  \<^item> \<open>NumError fn num err\<close>: \<open>&strconv.NumError{Func: fn, Num: num, Err: err}\<close>;
  \<^item> \<open>AlreadyParsed\<close>: "Flags have been parsed".
\<close>

datatype field = MajorNumber | MinorNumber | PatchNumber

datatype num_err = ErrSyntax | ErrRange

datatype error =
    EmptyInput
  | WrongFieldCount
  | InvalidCharacters field string
  | LeadingZero field string
  | NumError string string num_err
  | AlreadyParsed

definition numerals :: string where
  "numerals = ''0123456789''"

section \<open>The Go standard library functions the source calls\<close>

text \<open>
  These belong to Go's standard library, not to the repository; each is written after the
  library's own code, restricted to the arguments the source passes.
\<close>

subsection \<open>\<open>unicode/utf8\<close> and ranging over a string\<close>

definition RuneError :: rune where
  "RuneError = 0xFFFD"

text \<open>
  The code points of well-formed sequences of two, three and four bytes:
  \<open>rune(s0&mask2)<<6 | rune(s1&maskx)\<close> and so on, with \<open>mask2 = 0x1F\<close>,
  \<open>mask3 = 0x0F\<close>, \<open>mask4 = 0x07\<close> and \<open>maskx = 0x3F\<close>.  The masks are remainders
  and the shifts are products; the bit fields do not overlap, so \<open>|\<close> is \<open>+\<close>.
\<close>

definition rune2 :: "nat \<Rightarrow> nat \<Rightarrow> rune" where
  "rune2 s0 s1 = (s0 mod 32) * 64 + s1 mod 64"

definition rune3 :: "nat \<Rightarrow> nat \<Rightarrow> nat \<Rightarrow> rune" where
  "rune3 s0 s1 s2 = (s0 mod 16) * 4096 + (s1 mod 64) * 64 + s2 mod 64"

definition rune4 :: "nat \<Rightarrow> nat \<Rightarrow> nat \<Rightarrow> nat \<Rightarrow> rune" where
  "rune4 s0 s1 s2 s3 = (s0 mod 8) * 262144 + (s1 mod 64) * 4096 + (s2 mod 64) * 64 + s3 mod 64"

text \<open>
  \<open>utf8.DecodeRuneInString\<close>: the first code point of \<open>s\<close> and its width in bytes.  The
  library's table \<open>first\<close> is written as the ranges of the lead byte it encodes: below
  \<open>0x80\<close> the byte is the rune; \<open>0xC2..0xDF\<close> start two bytes, \<open>0xE0..0xEF\<close> three,
  \<open>0xF0..0xF4\<close> four, with the accepted range \<open>lo..hi\<close> of the second byte depending on
  the lead; every other lead byte, a short string or a wrong continuation byte gives
  \<open>(RuneError, 1)\<close>.
\<close>

definition DecodeRuneInString :: "string \<Rightarrow> rune \<times> nat" where
  "DecodeRuneInString s =
     (case map of_char s of
        [] \<Rightarrow> (RuneError, 0)
      | s0 # t \<Rightarrow>
          if s0 < 0x80 then (s0, 1)
          else if s0 < 0xC2 \<or> 0xF4 < s0 then (RuneError, 1)
          else
            let sz = (if s0 < 0xE0 then 2 else if s0 < 0xF0 then 3 else (4::nat));
                lo = (if s0 = 0xE0 then 0xA0 else if s0 = 0xF0 then 0x90 else (0x80::nat));
                hi = (if s0 = 0xED then 0x9F else if s0 = 0xF4 then 0x8F else (0xBF::nat))
            in
              if length s < sz then (RuneError, 1)
              else
                let s1 = t ! 0 in
                if s1 < lo \<or> hi < s1 then (RuneError, 1)
                else if sz \<le> 2 then (rune2 s0 s1, 2)
                else
                  let s2 = t ! 1 in
                  if s2 < 0x80 \<or> 0xBF < s2 then (RuneError, 1)
                  else if sz \<le> 3 then (rune3 s0 s1 s2, 3)
                  else
                    let s3 = t ! 2 in
                    if s3 < 0x80 \<or> 0xBF < s3 then (RuneError, 1)
                    else (rune4 s0 s1 s2 s3, 4))"

text \<open>
  \<open>for i, r := range s\<close>: the pairs of byte offset and rune, in order; \<open>i\<close> is the offset
  of \<open>s\<close> in the string being walked.
\<close>

function range_string :: "nat \<Rightarrow> string \<Rightarrow> (nat \<times> rune) list" where
  "range_string i s =
     (if s = [] then []
      else (i, fst (DecodeRuneInString s))
             # range_string (i + snd (DecodeRuneInString s)) (drop (snd (DecodeRuneInString s)) s))"
  by pat_completeness auto

lemma DecodeRuneInString_width: "s \<noteq> [] \<Longrightarrow> 0 < snd (DecodeRuneInString s)"
  by (cases s) (simp_all add: DecodeRuneInString_def Let_def)

termination range_string
  by (relation "measure (\<lambda>(i, s). length s)") (simp_all add: DecodeRuneInString_width)

declare range_string.simps [simp del]

subsection \<open>\<open>strings\<close>\<close>

text \<open>\<open>strings.IndexFunc\<close>: the offset of the first rune satisfying \<open>f\<close>, or \<open>-1\<close>.\<close>

definition IndexFunc :: "string \<Rightarrow> (rune \<Rightarrow> bool) \<Rightarrow> int" where
  "IndexFunc s f =
     (case filter (\<lambda>(i, r). f r) (range_string 0 s) of
        [] \<Rightarrow> -1
      | (i, r) # _ \<Rightarrow> int i)"

text \<open>\<open>strings.ContainsRune\<close>: whether the code point \<open>r\<close> is within \<open>s\<close>.\<close>

definition ContainsRune :: "string \<Rightarrow> rune \<Rightarrow> bool" where
  "ContainsRune s r = (r \<in> set (map snd (range_string 0 s)))"

text \<open>\<open>strings.Index\<close>: the offset of the first instance of \<open>sep\<close> in \<open>s\<close>, or \<open>-1\<close>.\<close>

fun Index :: "string \<Rightarrow> string \<Rightarrow> int" where
  "Index [] sep = (if sep = [] then 0 else -1)"
| "Index (c # cs) sep =
     (if prefix sep (c # cs) then 0
      else let m = Index cs sep in if m < 0 then -1 else m + 1)"

text \<open>
  The loop of \<open>strings.genSplit\<close>, with \<open>k = n - i\<close> the number of cuts still allowed:
  \<^verbatim>\<open>
  for i < n { m := Index(s, sep); if m < 0 { break }
              a[i] = s[:m]; s = s[m+len(sep):]; i++ }
  a[i] = s
  \<close>
\<close>

fun genSplit :: "string \<Rightarrow> string \<Rightarrow> nat \<Rightarrow> string list" where
  "genSplit s sep 0 = [s]"
| "genSplit s sep (Suc k) =
     (let m = Index s sep in
      if m < 0 then [s]
      else take (nat m) s # genSplit (drop (nat m + length sep) s) sep k)"

text \<open>
  \<open>strings.SplitN(s, sep, n)\<close> for a non-empty \<open>sep\<close> and \<open>n \<ge> 0\<close> (the source passes
  \<open>"."\<close> and \<open>3\<close>): \<open>nil\<close> for \<open>n = 0\<close>; otherwise \<open>n\<close> is capped at \<open>len(s) + 1\<close> and the loop
  cuts at most \<open>n - 1\<close> times.
\<close>

definition SplitN :: "string \<Rightarrow> string \<Rightarrow> nat \<Rightarrow> string list" where
  "SplitN s sep n =
     (if n = 0 then []
      else genSplit s sep ((if n > length s + 1 then length s + 1 else n) - 1))"

subsection \<open>\<open>strconv\<close>\<close>

text \<open>
  \<open>strconv.ParseUint(s, 10, 64)\<close>.  \<open>lower c\<close> is \<open>c | ('x' - 'X')\<close>; \<open>cutoff\<close> is
  \<open>maxUint64/10 + 1\<close>, \<open>maxVal\<close> is \<open>1<<64 - 1\<close>.  The underscore branch belongs to base 0
  and is never taken.  Per byte:
  \<^verbatim>\<open>
  switch { case '0' <= c && c <= '9': d = c - '0'
           case 'a' <= lower(c) && lower(c) <= 'z': d = lower(c) - 'a' + 10
           default: return 0, syntaxError(fnParseUint, s0) }
  if d >= byte(base) { return 0, syntaxError(fnParseUint, s0) }
  if n >= cutoff { return maxVal, rangeError(fnParseUint, s0) }
  n *= uint64(base)
  n1 := n + uint64(d)
  if n1 < n || n1 > maxVal { return maxVal, rangeError(fnParseUint, s0) }
  n = n1
  \<close>
\<close>

definition lower :: "nat \<Rightarrow> nat" where
  "lower c = or c 32"

definition cutoff :: uint64 where
  "cutoff = (- 1) div 10 + 1"

definition maxVal :: uint64 where
  "maxVal = push_bit 64 1 - 1"

definition syntaxError :: "string \<Rightarrow> string \<Rightarrow> error" where
  "syntaxError fn str = NumError fn str ErrSyntax"

definition rangeError :: "string \<Rightarrow> string \<Rightarrow> error" where
  "rangeError fn str = NumError fn str ErrRange"

fun ParseUint_loop :: "string \<Rightarrow> uint64 \<Rightarrow> string \<Rightarrow> error + uint64" where
  "ParseUint_loop s0 n [] = Inr n"
| "ParseUint_loop s0 n (c # cs) =
     (let b = (of_char c :: nat) in
      if \<not> (48 \<le> b \<and> b \<le> 57) \<and> \<not> (97 \<le> lower b \<and> lower b \<le> 122)
      then Inl (syntaxError ''ParseUint'' s0)
      else
        let d = (if 48 \<le> b \<and> b \<le> 57 then b - 48 else lower b - 97 + 10) in
        if d \<ge> 10 then Inl (syntaxError ''ParseUint'' s0)
        else if n \<ge> cutoff then Inl (rangeError ''ParseUint'' s0)
        else
          let n' = n * 10; n1 = n' + of_nat d in
          if n1 < n' \<or> n1 > maxVal then Inl (rangeError ''ParseUint'' s0)
          else ParseUint_loop s0 n1 cs)"

definition ParseUint :: "string \<Rightarrow> error + uint64" where
  "ParseUint s =
     (if s = [] then Inl (syntaxError ''ParseUint'' s)
      else ParseUint_loop s 0 s)"

text \<open>
  \<open>strconv.AppendUint(dst, i, 10)\<close> appends the decimal digits of \<open>i\<close>.  The digits come
  from the library's loop
  \<^verbatim>\<open>
  for u >= b { i--; q := u / b; a[i] = digits[uint(u)-uint(q*b)]; u = q }
  i--; a[i] = digits[uint(u)]
  \<close>
  (its fast paths for base 10 write the same digits two at a time); \<open>a\<close> is the part of
  the buffer already written, \<open>u\<close> the value of the \<open>uint64\<close>.
\<close>

definition digits :: string where
  "digits = ''0123456789abcdefghijklmnopqrstuvwxyz''"

function formatBits :: "nat \<Rightarrow> string \<Rightarrow> string" where
  "formatBits u a =
     (if u \<ge> 10 then formatBits (u div 10) (digits ! (u - (u div 10) * 10) # a)
      else digits ! u # a)"
  by pat_completeness auto
termination
  by (relation "measure (\<lambda>(u, a). u)") simp_all

declare formatBits.simps [simp del]

definition AppendUint :: "string \<Rightarrow> uint64 \<Rightarrow> string" where
  "AppendUint dst i = dst @ formatBits (unat i) []"

section \<open>The package\<close>

text \<open>\<open>func (v *Version) String() string\<close>\<close>

definition Version_String :: "Version \<Rightarrow> string" where
  "Version_String v =
     (let b = [];
          b = AppendUint b (Major v);
          b = b @ [CHR ''.''];
          b = AppendUint b (Minor v);
          b = b @ [CHR ''.''];
          b = AppendUint b (Patch v)
      in b)"

text \<open>\<open>func (v *Version) Equal(v2 *Version) bool\<close>\<close>

definition Version_Equal :: "Version \<Rightarrow> Version \<Rightarrow> bool" where
  "Version_Equal v v2 =
     (if Major v \<noteq> Major v2 then False
      else if Minor v \<noteq> Minor v2 then False
      else if Patch v \<noteq> Patch v2 then False
      else True)"

text \<open>\<open>func containsOnly(s string, compare string) bool\<close>\<close>

definition containsOnly :: "string \<Rightarrow> string \<Rightarrow> bool" where
  "containsOnly s compare = (IndexFunc s (\<lambda>r. \<not> ContainsRune compare r) = -1)"

text \<open>\<open>func hasLeadingZeroes(s string) bool\<close>\<close>

definition hasLeadingZeroes :: "string \<Rightarrow> bool" where
  "hasLeadingZeroes s = (length s > 1 \<and> s ! 0 = CHR ''0'')"

text \<open>\<open>func NewVersion(s string) (*Version, error)\<close>\<close>

definition NewVersion :: "string \<Rightarrow> error + Version" where
  "NewVersion s =
     (if length s = 0 then Inl EmptyInput
      else
        let parts = SplitN s ''.'' 3 in
        if length parts \<noteq> 3 then Inl WrongFieldCount
        else if \<not> containsOnly (parts ! 0) numerals
          then Inl (InvalidCharacters MajorNumber (parts ! 0))
        else if hasLeadingZeroes (parts ! 0)
          then Inl (LeadingZero MajorNumber (parts ! 0))
        else
          (case ParseUint (parts ! 0) of
             Inl err \<Rightarrow> Inl err
           | Inr major \<Rightarrow>
               (if \<not> containsOnly (parts ! 1) numerals
                  then Inl (InvalidCharacters MinorNumber (parts ! 1))
                else if hasLeadingZeroes (parts ! 1)
                  then Inl (LeadingZero MinorNumber (parts ! 1))
                else
                  (case ParseUint (parts ! 1) of
                     Inl err \<Rightarrow> Inl err
                   | Inr minor \<Rightarrow>
                       (if \<not> containsOnly (parts ! 2) numerals
                          then Inl (InvalidCharacters PatchNumber (parts ! 2))
                        else if hasLeadingZeroes (parts ! 2)
                          then Inl (LeadingZero PatchNumber (parts ! 2))
                        else
                          (case ParseUint (parts ! 2) of
                             Inl err \<Rightarrow> Inl err
                           | Inr patch \<Rightarrow>
                               Inr \<lparr>Major = major, Minor = minor, Patch = patch\<rparr>))))))"

text \<open>\<open>func Equal(s1 string, s2 string) bool\<close>\<close>

definition Equal :: "string \<Rightarrow> string \<Rightarrow> bool" where
  "Equal s1 s2 =
     (case NewVersion s1 of
        Inl err \<Rightarrow> False
      | Inr v \<Rightarrow>
          (case NewVersion s2 of
             Inl err \<Rightarrow> False
           | Inr v2 \<Rightarrow> Version_Equal v v2))"

subsection \<open>The version flag\<close>

text \<open>
  Package \<open>flag\<close> is outside the repository.  Of its process-wide state the model keeps
  what the source depends on: whether \<open>flag.Parse\<close> has run (\<open>flag.Parsed()\<close>) and the
  flags defined so far, each with its usage text.  Defining a name twice panics in the
  library (\<open>"flag redefined: " + name\<close>); \<open>Inl name\<close> is that panic.
\<close>

record FlagSet =
  parsed :: bool
  formal :: "(string \<times> string) list"

definition flag_Var :: "string \<Rightarrow> string \<Rightarrow> FlagSet \<Rightarrow> string + FlagSet" where
  "flag_Var name usage fs =
     (if name \<in> fst ` set (formal fs) then Inl name
      else Inr (fs\<lparr>formal := formal fs @ [(name, usage)]\<rparr>))"

text \<open>
  \<open>func (v *Version) CreateFlag() *bool\<close>: \<open>flag.Bool("version", false, versionUsage)\<close>,
  then \<open>flag.BoolVar(versionPtr, "v", false, versionUsage+" (shorthand)")\<close>; both names
  share one variable.
\<close>

definition Version_CreateFlag :: "Version \<Rightarrow> FlagSet \<Rightarrow> string + FlagSet" where
  "Version_CreateFlag v fs =
     (let versionUsage = ''Prints current version: v. '' @ Version_String v in
      case flag_Var ''version'' versionUsage fs of
        Inl name \<Rightarrow> Inl name
      | Inr fs1 \<Rightarrow> flag_Var ''v'' (versionUsage @ '' (shorthand)'') fs1)"

text \<open>
  How a call of \<open>CreateFlagAndParse\<close> ends: it returns an error or \<open>nil\<close>; it prints a
  line and calls \<open>os.Exit\<close>; a flag definition panics; or \<open>flag.Parse\<close> itself ends the
  process (a malformed argument under \<open>ExitOnError\<close>).
\<close>

datatype outcome =
    Returned "error option"
  | Exited int string
  | Panicked string
  | ParseExited

text \<open>
  \<open>func CreateFlagAndParse(s string) error\<close>.  What \<open>flag.Parse()\<close> makes of the
  process's arguments is the parameter \<open>parse\<close>: given the flags defined, \<open>None\<close> when it
  ends the process itself, \<open>Some b\<close> when it returns, \<open>b\<close> being the value it leaves in the
  shared variable \<open>*versionPtr\<close>.  The result pairs the outcome with the state of the
  flag package afterwards.
\<close>

definition CreateFlagAndParse ::
  "(FlagSet \<Rightarrow> bool option) \<Rightarrow> string \<Rightarrow> FlagSet \<Rightarrow> outcome \<times> FlagSet" where
  "CreateFlagAndParse parse s fs =
     (if parsed fs then (Returned (Some AlreadyParsed), fs)
      else
        (case NewVersion s of
           Inl err \<Rightarrow> (Returned (Some err), fs)
         | Inr v \<Rightarrow>
             (case Version_CreateFlag v fs of
                Inl name \<Rightarrow> (Panicked (''flag redefined: '' @ name), fs)
              | Inr fs1 \<Rightarrow>
                  (case parse fs1 of
                     None \<Rightarrow> (ParseExited, fs1\<lparr>parsed := True\<rparr>)
                   | Some versionSet \<Rightarrow>
                       if versionSet
                       then (Exited 0 (Version_String v @ [CHR 0x0A]), fs1\<lparr>parsed := True\<rparr>)
                       else (Returned None, fs1\<lparr>parsed := True\<rparr>)))))"

section \<open>Auxiliary notions for stating the properties\<close>

text \<open>A byte that is one of the ASCII digits \<open>'0'\<close> to \<open>'9'\<close>.\<close>

definition is_digit :: "char \<Rightarrow> bool" where
  "is_digit c = (48 \<le> (of_char c :: nat) \<and> (of_char c :: nat) \<le> 57)"

text \<open>
  The number a string of decimal digits denotes, most significant digit first;
  \<open>decimal_from n s\<close> continues from the value \<open>n\<close> of the digits already read.
\<close>

definition digit_val :: "char \<Rightarrow> nat" where
  "digit_val c = of_char c - 48"

definition decimal_from :: "nat \<Rightarrow> string \<Rightarrow> nat" where
  "decimal_from n s = foldl (\<lambda>a c. 10 * a + digit_val c) n s"

definition decimal :: "string \<Rightarrow> nat" where
  "decimal s = decimal_from 0 s"

text \<open>
  The three checks \<open>NewVersion\<close> runs on one part, in the order it runs them
  (character check, leading zero, numeric parse); a well-formed part, which is non-empty
  and passes the first two; and an accepted part, which passes all three.
\<close>

definition check_part :: "field \<Rightarrow> string \<Rightarrow> error + uint64" where
  "check_part f p =
     (if \<not> containsOnly p numerals then Inl (InvalidCharacters f p)
      else if hasLeadingZeroes p then Inl (LeadingZero f p)
      else ParseUint p)"

definition well_formed :: "string \<Rightarrow> bool" where
  "well_formed p = (p \<noteq> [] \<and> containsOnly p numerals \<and> \<not> hasLeadingZeroes p)"

definition accepted :: "string \<Rightarrow> bool" where
  "accepted p = (containsOnly p numerals \<and> \<not> hasLeadingZeroes p \<and> \<not> isl (ParseUint p))"

section \<open>Decoding and the character check\<close>

lemma decode_ascii:
  "(of_char c :: nat) < 128 \<Longrightarrow> DecodeRuneInString (c # t) = (of_char c, 1)"
  by (simp add: DecodeRuneInString_def)

lemma rune2_ge:
  assumes "194 \<le> s0" "s0 < 224"
  shows "128 \<le> rune2 s0 s1"
proof -
  have "2 \<le> s0 mod 32" using assms by presburger
  then show ?thesis by (simp add: rune2_def)
qed

lemma rune3_ge:
  assumes "224 \<le> s0" "s0 < 240" "s0 = 224 \<longrightarrow> 160 \<le> s1" "s1 \<le> 191"
  shows "128 \<le> rune3 s0 s1 s2"
proof (cases "s0 = 224")
  case True
  then have "32 \<le> s1 mod 64" using assms by presburger
  then show ?thesis by (simp add: rune3_def)
next
  case False
  then have "1 \<le> s0 mod 16" using assms by presburger
  then show ?thesis by (simp add: rune3_def)
qed

lemma rune4_ge:
  assumes "240 \<le> s0" "s0 \<le> 244" "s0 = 240 \<longrightarrow> 144 \<le> s1" "s1 \<le> 191"
  shows "128 \<le> rune4 s0 s1 s2 s3"
proof (cases "s0 = 240")
  case True
  then have "16 \<le> s1 mod 64" using assms by presburger
  then show ?thesis by (simp add: rune4_def)
next
  case False
  then have "1 \<le> s0 mod 8" using assms by presburger
  then show ?thesis by (simp add: rune4_def)
qed

lemma decode_nonascii:
  assumes "\<not> (of_char c :: nat) < 128"
  shows "128 \<le> fst (DecodeRuneInString (c # t))"
  using assms
  by (auto simp: DecodeRuneInString_def Let_def RuneError_def not_less
      intro!: rune2_ge rune3_ge rune4_ge)

lemma is_digit_numerals: "is_digit c \<longleftrightarrow> c \<in> set numerals"
proof
  assume "is_digit c"
  then have "(of_char c :: nat) \<in> of_char ` set numerals"
    unfolding is_digit_def numerals_def by simp arith
  then show "c \<in> set numerals"
    by (auto simp: image_iff)
next
  assume "c \<in> set numerals"
  then show "is_digit c"
    by (auto simp: numerals_def is_digit_def)
qed

lemma range_numerals: "map snd (range_string 0 numerals) = [48, 49, 50, 51, 52, 53, 54, 55, 56, 57]"
  by (simp add: numerals_def range_string.simps DecodeRuneInString_def)

lemma runes_digits:
  "(\<forall>r \<in> set (map snd (range_string i s)). 48 \<le> r \<and> r \<le> 57) \<longleftrightarrow> (\<forall>c \<in> set s. is_digit c)"
proof (induction i s rule: range_string.induct)
  case (1 i s)
  show ?case
  proof (cases s)
    case Nil
    then show ?thesis by (simp add: range_string.simps)
  next
    case (Cons c t)
    show ?thesis
    proof (cases "(of_char c :: nat) < 128")
      case True
      then have d: "DecodeRuneInString s = (of_char c, 1)"
        using Cons by (simp add: decode_ascii)
      have "range_string i s = (i, of_char c) # range_string (i + 1) t"
        using Cons d by (subst range_string.simps) simp
      moreover have "(\<forall>r \<in> set (map snd (range_string (i + 1) t)). 48 \<le> r \<and> r \<le> 57)
          \<longleftrightarrow> (\<forall>c \<in> set t. is_digit c)"
        using "1.IH" Cons d by simp
      ultimately show ?thesis
        using Cons by (simp add: is_digit_def)
    next
      case False
      then have "128 \<le> fst (DecodeRuneInString s)"
        using Cons by (simp add: decode_nonascii)
      moreover have "fst (DecodeRuneInString s) \<in> set (map snd (range_string i s))"
        using Cons by (subst range_string.simps) simp
      ultimately have "\<not> (\<forall>r \<in> set (map snd (range_string i s)). 48 \<le> r \<and> r \<le> 57)"
        by fastforce
      moreover have "\<not> is_digit c"
        using False by (simp add: is_digit_def)
      ultimately show ?thesis
        using Cons by auto
    qed
  qed
qed

lemma ContainsRune_numerals: "ContainsRune numerals r \<longleftrightarrow> 48 \<le> r \<and> r \<le> 57"
proof -
  have "r \<in> set [48, 49, 50, 51, 52, 53, 54, 55, 56, 57] \<longleftrightarrow> 48 \<le> r \<and> r \<le> 57"
    by simp arith
  then show ?thesis
    by (simp only: ContainsRune_def range_numerals)
qed

lemma IndexFunc_none: "IndexFunc s f = -1 \<longleftrightarrow> (\<forall>r \<in> set (map snd (range_string 0 s)). \<not> f r)"
proof -
  have "IndexFunc s f = -1 \<longleftrightarrow> filter (\<lambda>(i, r). f r) (range_string 0 s) = []"
    by (simp add: IndexFunc_def split: list.splits prod.splits)
  also have "\<dots> \<longleftrightarrow> (\<forall>r \<in> set (map snd (range_string 0 s)). \<not> f r)"
    by (auto simp: filter_empty_conv)
  finally show ?thesis .
qed

lemma containsOnly_numerals: "containsOnly s numerals \<longleftrightarrow> (\<forall>c \<in> set s. is_digit c)"
  by (simp only: containsOnly_def IndexFunc_none ContainsRune_numerals not_not runes_digits)

section \<open>Splitting on a one-byte separator\<close>

lemma Index_single:
  "Index s [c] = (if c \<in> set s then int (length (takeWhile (\<lambda>x. x \<noteq> c) s)) else -1)"
  by (induction s) (auto simp: Let_def)

lemma Index_absent: "c \<notin> set s \<Longrightarrow> Index s [c] = -1"
  by (simp add: Index_single)

lemma Index_first: "c \<notin> set p \<Longrightarrow> Index (p @ c # r) [c] = int (length p)"
proof -
  have "takeWhile (\<lambda>x. x \<noteq> c) (p @ c # r) = p" if "c \<notin> set p"
    using that by (induction p) auto
  then show "c \<notin> set p \<Longrightarrow> Index (p @ c # r) [c] = int (length p)"
    by (simp add: Index_single)
qed

lemma genSplit_absent: "c \<notin> set s \<Longrightarrow> genSplit s [c] k = [s]"
  by (cases k) (simp_all add: Index_absent)

lemma genSplit_first:
  "c \<notin> set p \<Longrightarrow> genSplit (p @ c # r) [c] (Suc k) = p # genSplit r [c] k"
  by (simp add: Index_first)

lemma split_first:
  assumes "c \<in> set s"
  obtains p r where "s = p @ c # r" "c \<notin> set p"
  using assms split_list_first by metis

lemma length_genSplit: "length (genSplit s [c] k) = min (Suc k) (Suc (count_list s c))"
proof (induction k arbitrary: s)
  case 0
  then show ?case by simp
next
  case (Suc k)
  show ?case
  proof (cases "c \<in> set s")
    case False
    then show ?thesis by (simp add: genSplit_absent del: genSplit.simps)
  next
    case True
    then obtain p r where s: "s = p @ c # r" and p: "c \<notin> set p"
      by (rule split_first)
    have "count_list s c = Suc (count_list r c)"
      using s p by simp
    then show ?thesis
      using Suc.IH [of r] s p by (simp add: genSplit_first del: genSplit.simps)
  qed
qed

lemma count_list_le_length: "count_list s c \<le> length s"
  by (induction s) auto

lemma length_SplitN3: "length (SplitN s [c] 3) = min 3 (Suc (count_list s c))"
  using count_list_le_length [of s c]
  by (auto simp: SplitN_def length_genSplit)

lemma SplitN3_parts:
  assumes "c \<notin> set p0" "c \<notin> set p1"
  shows "SplitN (p0 @ c # p1 @ c # r) [c] 3 = [p0, p1, r]"
proof -
  have "genSplit (p0 @ c # p1 @ c # r) [c] 2 = [p0, p1, r]"
    using assms by (simp add: numeral_2_eq_2 genSplit_first del: genSplit.simps(2))
  then show ?thesis
    by (simp add: SplitN_def)
qed

lemma SplitN3_cases:
  assumes "length (SplitN s [c] 3) = 3"
  obtains p0 p1 r where "s = p0 @ c # p1 @ c # r" "c \<notin> set p0" "c \<notin> set p1"
    "SplitN s [c] 3 = [p0, p1, r]"
proof -
  have n: "2 \<le> count_list s c"
    using assms by (simp add: length_SplitN3)
  then have "c \<in> set s"
    by (metis count_list_0_iff not_numeral_le_zero)
  then obtain p0 t where s: "s = p0 @ c # t" and p0: "c \<notin> set p0"
    by (rule split_first)
  have "1 \<le> count_list t c"
    using n s p0 by simp
  then have "c \<in> set t"
    by (metis count_list_0_iff not_one_le_zero)
  then obtain p1 r where t: "t = p1 @ c # r" and p1: "c \<notin> set p1"
    by (rule split_first)
  show ?thesis
    using that [of p0 p1 r] s t p0 p1 SplitN3_parts [OF p0 p1, of r] by simp
qed

section \<open>Parsing decimal digits\<close>

lemma decimal_from_simps [simp]:
  "decimal_from n [] = n"
  "decimal_from n (c # cs) = decimal_from (10 * n + digit_val c) cs"
  by (simp_all add: decimal_from_def)

lemma decimal_from_mono: "n \<le> decimal_from n s"
proof (induction s arbitrary: n)
  case Nil
  then show ?case by simp
next
  case (Cons c cs)
  have "n \<le> 10 * n + digit_val c" by simp
  also have "\<dots> \<le> decimal_from (10 * n + digit_val c) cs" by (rule Cons.IH)
  finally show ?case by simp
qed

lemma unat_cutoff: "unat cutoff = 1844674407370955162"
  by (simp add: cutoff_def)

lemma maxVal_max: "maxVal = - 1"
  by (simp add: maxVal_def)

lemma digit_val_less: "is_digit c \<Longrightarrow> digit_val c < 10"
  by (auto simp: is_digit_def digit_val_def)


lemma ParseUint_loop_step:
  assumes "is_digit c"
  shows "ParseUint_loop s0 n (c # cs) =
    (if unat n * 10 + digit_val c < 2 ^ 64
     then ParseUint_loop s0 (word_of_nat (unat n * 10 + digit_val c)) cs
     else Inl (rangeError ''ParseUint'' s0))"
proof -
  define d where "d = digit_val c"
  have b: "48 \<le> (of_char c :: nat)" "(of_char c :: nat) \<le> 57"
    using assms by (simp_all add: is_digit_def)
  have d: "d < 10" "of_char c - 48 = d"
    using assms by (simp_all add: d_def digit_val_less) (simp add: digit_val_def)
  have ud: "unat (word_of_nat d :: uint64) = d"
    using d(1) by (simp add: unat_of_nat)
  show ?thesis
  proof (cases "cutoff \<le> n")
    case True
    then have "1844674407370955162 \<le> unat n"
      by (simp add: word_le_nat_alt unat_cutoff)
    then have "\<not> unat n * 10 + d < 2 ^ 64"
      by simp
    then show ?thesis
      using True b d by (simp add: Let_def d_def [symmetric])
  next
    case False
    then have small: "unat n < 1844674407370955162"
      by (simp add: word_le_nat_alt unat_cutoff)
    then have "unat n * unat (10 :: uint64) < 2 ^ LENGTH(64)"
      by simp
    then have m: "unat (n * 10) = unat n * 10"
      by (simp add: unat_mult_lem [THEN iffD1])
    have lt: "n * 10 + word_of_nat d < n * 10 \<longleftrightarrow> \<not> unat n * 10 + d < 2 ^ 64"
      using no_olen_add_nat [of "n * 10" "word_of_nat d"] m ud
      by (simp add: not_le [symmetric])
    have eq: "n * 10 + word_of_nat d = (word_of_nat (unat n * 10 + d) :: uint64)"
      by simp
    show ?thesis
      using False b d lt
      by (simp add: Let_def d_def [symmetric] maxVal_max eq del: of_nat_add of_nat_mult)
  qed
qed


lemma ParseUint_loop_digits:
  assumes "\<forall>c \<in> set ds. is_digit c"
  shows "ParseUint_loop s0 n ds =
    (if decimal_from (unat n) ds < 2 ^ 64
     then Inr (word_of_nat (decimal_from (unat n) ds))
     else Inl (rangeError ''ParseUint'' s0))"
  using assms
proof (induction ds arbitrary: n)
  case Nil
  have "unat n < 2 ^ 64"
    using unsigned_less [of n] by simp
  then show ?case by simp
next
  case (Cons c cs)
  define m where "m = unat n * 10 + digit_val c"
  have step: "ParseUint_loop s0 n (c # cs) =
      (if m < 2 ^ 64 then ParseUint_loop s0 (word_of_nat m) cs
       else Inl (rangeError ''ParseUint'' s0))"
    using Cons.prems by (simp add: ParseUint_loop_step m_def del: ParseUint_loop.simps)
  have dec: "decimal_from (unat n) (c # cs) = decimal_from m cs"
    by (simp add: m_def mult.commute)
  show ?case
  proof (cases "m < 2 ^ 64")
    case True
    then have "unat (word_of_nat m :: uint64) = m"
      by (simp add: unat_of_nat)
    then show ?thesis
      using Cons.IH [of "word_of_nat m"] Cons.prems True step dec
      by (simp del: ParseUint_loop.simps decimal_from_simps)
  next
    case False
    moreover have "m \<le> decimal_from m cs"
      by (rule decimal_from_mono)
    ultimately have "\<not> decimal_from m cs < 2 ^ 64"
      by simp
    then show ?thesis
      using False step dec by (simp del: ParseUint_loop.simps decimal_from_simps)
  qed
qed

lemma ParseUint_empty: "ParseUint [] = Inl (NumError ''ParseUint'' [] ErrSyntax)"
  by (simp add: ParseUint_def syntaxError_def)

lemma ParseUint_digits:
  assumes "s \<noteq> []" "\<forall>c \<in> set s. is_digit c"
  shows "ParseUint s =
    (if decimal s < 2 ^ 64 then Inr (word_of_nat (decimal s))
     else Inl (NumError ''ParseUint'' s ErrRange))"
  using assms ParseUint_loop_digits [of s s 0]
  by (simp add: ParseUint_def decimal_def rangeError_def)

section \<open>Formatting decimal digits\<close>

lemma digits_nth:
  assumes "d < 10"
  shows "is_digit (digits ! d)" "digit_val (digits ! d) = d" "digits ! d \<noteq> CHR ''.''"
    "digits ! d = CHR ''0'' \<longleftrightarrow> d = 0"
proof -
  have "d = 0 \<or> d = 1 \<or> d = 2 \<or> d = 3 \<or> d = 4 \<or> d = 5 \<or> d = 6 \<or> d = 7 \<or> d = 8 \<or> d = 9"
    using assms by arith
  then show "is_digit (digits ! d)" "digit_val (digits ! d) = d" "digits ! d \<noteq> CHR ''.''"
    "digits ! d = CHR ''0'' \<longleftrightarrow> d = 0"
    by (auto simp: digits_def is_digit_def digit_val_def)
qed

lemma formatBits_acc: "formatBits u a = formatBits u [] @ a"
proof (induction u arbitrary: a rule: less_induct)
  case (less u)
  show ?case
  proof (cases "10 \<le> u")
    case True
    define d where "d = digits ! (u - u div 10 * 10)"
    have lt: "u div 10 < u"
      using True by simp
    have "formatBits u a = formatBits (u div 10) (d # a)"
      using True by (subst formatBits.simps) (simp add: d_def)
    also have "\<dots> = formatBits (u div 10) [] @ d # a"
      by (rule less.IH [OF lt])
    also have "\<dots> = (formatBits (u div 10) [] @ [d]) @ a"
      by simp
    also have "formatBits (u div 10) [] @ [d] = formatBits (u div 10) [d]"
      by (rule less.IH [OF lt, symmetric])
    also have "formatBits (u div 10) [d] = formatBits u []"
      using True by (subst (2) formatBits.simps) (simp add: d_def)
    finally show ?thesis .
  next
    case False
    then show ?thesis
      by (simp add: formatBits.simps)
  qed
qed

lemma formatBits_small: "u < 10 \<Longrightarrow> formatBits u [] = [digits ! u]"
  by (simp add: formatBits.simps)

lemma formatBits_large:
  assumes "10 \<le> u"
  shows "formatBits u [] = formatBits (u div 10) [] @ [digits ! (u mod 10)]"
proof -
  have "u - u div 10 * 10 = u mod 10"
    by (simp add: minus_div_mult_eq_mod)
  then have "formatBits u [] = formatBits (u div 10) [digits ! (u mod 10)]"
    using assms by (subst formatBits.simps) simp
  then show ?thesis
    by (simp add: formatBits_acc [of "u div 10" "[digits ! (u mod 10)]"])
qed

lemma decimal_from_append: "decimal_from n (xs @ ys) = decimal_from (decimal_from n xs) ys"
  by (simp add: decimal_from_def)

lemma decimal_snoc: "decimal (xs @ [c]) = 10 * decimal xs + digit_val c"
  by (simp add: decimal_def decimal_from_append)

lemma formatBits_props:
  "decimal (formatBits u []) = u
   \<and> (\<forall>c \<in> set (formatBits u []). is_digit c)
   \<and> formatBits u [] \<noteq> []
   \<and> CHR ''.'' \<notin> set (formatBits u [])
   \<and> (hd (formatBits u []) = CHR ''0'' \<longrightarrow> u = 0)
   \<and> (1 < length (formatBits u []) \<longrightarrow> 10 \<le> u)"
proof (induction u rule: less_induct)
  case (less u)
  show ?case
  proof (cases "10 \<le> u")
    case False
    then have "u < 10" by simp
    then show ?thesis
      using digits_nth [of u] by (simp add: formatBits_small decimal_def)
  next
    case True
    have lt: "u div 10 < u" and pos: "0 < u div 10" and m: "u mod 10 < 10"
      using True by simp_all
    note IH = less.IH [OF lt]
    have "hd (formatBits (u div 10) [] @ [digits ! (u mod 10)]) = hd (formatBits (u div 10) [])"
      using IH by simp
    then show ?thesis
      using IH pos True digits_nth [OF m]
      by (simp add: formatBits_large decimal_snoc)
  qed
qed

lemma digits_digit_val:
  assumes "is_digit c"
  shows "digits ! digit_val c = c" "digit_val c = 0 \<longleftrightarrow> c = CHR ''0''"
proof -
  have "c \<in> set numerals"
    using assms by (simp add: is_digit_numerals)
  then show "digits ! digit_val c = c" "digit_val c = 0 \<longleftrightarrow> c = CHR ''0''"
    by (auto simp: numerals_def digits_def digit_val_def)
qed

lemma decimal_single: "decimal [c] = digit_val c"
  by (simp add: decimal_def)

lemma formatBits_decimal_nonzero:
  assumes "p \<noteq> []" "\<forall>c \<in> set p. is_digit c" "hd p \<noteq> CHR ''0''"
  shows "formatBits (decimal p) [] = p \<and> 0 < decimal p"
  using assms
proof (induction p rule: rev_induct)
  case Nil
  then show ?case by simp
next
  case (snoc c q)
  have c: "is_digit c" and d: "digit_val c < 10"
    using snoc.prems by (simp_all add: digit_val_less)
  show ?case
  proof (cases "q = []")
    case True
    then have "c \<noteq> CHR ''0''"
      using snoc.prems by simp
    then show ?thesis
      using True c d digits_digit_val [OF c]
      by (simp add: decimal_single formatBits_small)
  next
    case False
    then have "formatBits (decimal q) [] = q \<and> 0 < decimal q"
      using snoc.IH snoc.prems by simp
    moreover have "(10 * decimal q + digit_val c) div 10 = decimal q"
      "(10 * decimal q + digit_val c) mod 10 = digit_val c"
      using d by simp_all
    ultimately show ?thesis
      using digits_digit_val [OF c]
      by (simp add: decimal_snoc formatBits_large)
  qed
qed

lemma formatBits_decimal:
  assumes "p \<noteq> []" "\<forall>c \<in> set p. is_digit c" "\<not> hasLeadingZeroes p"
  shows "formatBits (decimal p) [] = p"
proof (cases "length p = 1")
  case True
  then obtain c where p: "p = [c]"
    by (cases p) auto
  then have c: "is_digit c"
    using assms by simp
  show ?thesis
    using p digits_digit_val [OF c] digit_val_less [OF c]
    by (simp add: decimal_single formatBits_small)
next
  case False
  then have "1 < length p"
    using assms(1) by (cases p) auto
  then have "hd p \<noteq> CHR ''0''"
    using assms by (simp add: hasLeadingZeroes_def hd_conv_nth)
  then show ?thesis
    using assms formatBits_decimal_nonzero by simp
qed

lemma formatBits_no_leading_zero: "\<not> hasLeadingZeroes (formatBits u [])"
proof
  assume h: "hasLeadingZeroes (formatBits u [])"
  then have "hd (formatBits u []) = CHR ''0''" "1 < length (formatBits u [])"
    using formatBits_props [of u] by (simp_all add: hasLeadingZeroes_def hd_conv_nth)
  moreover have "hd (formatBits u []) = CHR ''0'' \<longrightarrow> u = 0"
    "1 < length (formatBits u []) \<longrightarrow> 10 \<le> u"
    using formatBits_props [of u] by blast+
  ultimately show False
    by linarith
qed

section \<open>The parser, part by part\<close>

lemma NewVersion_parts:
  assumes "s \<noteq> []" "SplitN s ''.'' 3 = [p0, p1, p2]"
  shows "NewVersion s =
    (case check_part MajorNumber p0 of
       Inl e \<Rightarrow> Inl e
     | Inr a \<Rightarrow>
         (case check_part MinorNumber p1 of
            Inl e \<Rightarrow> Inl e
          | Inr b \<Rightarrow>
              (case check_part PatchNumber p2 of
                 Inl e \<Rightarrow> Inl e
               | Inr c \<Rightarrow> Inr \<lparr>Major = a, Minor = b, Patch = c\<rparr>)))"
  using assms
  by (simp add: NewVersion_def check_part_def split: sum.splits)

lemma NewVersion_few_parts:
  assumes "s \<noteq> []" "length (SplitN s ''.'' 3) \<noteq> 3"
  shows "NewVersion s = Inl WrongFieldCount"
  using assms by (simp add: NewVersion_def)

lemma accepted_iff:
  "accepted p \<longleftrightarrow>
     p \<noteq> [] \<and> (\<forall>c \<in> set p. is_digit c) \<and> \<not> hasLeadingZeroes p \<and> decimal p < 2 ^ 64"
proof (cases "p = []")
  case True
  then show ?thesis
    by (simp add: accepted_def ParseUint_empty)
next
  case False
  show ?thesis
  proof (cases "\<forall>c \<in> set p. is_digit c")
    case True
    then show ?thesis
      using False ParseUint_digits [OF False True]
      by (simp add: accepted_def containsOnly_numerals)
  next
    case False
    then show ?thesis
      by (auto simp: accepted_def containsOnly_numerals)
  qed
qed

lemma check_part_accepted:
  "accepted p \<Longrightarrow> check_part f p = Inr (word_of_nat (decimal p))"
  using ParseUint_digits [of p]
  by (simp add: accepted_iff check_part_def containsOnly_numerals)

lemma check_part_Inr:
  "check_part f p = Inr w \<Longrightarrow> accepted p"
  by (auto simp: check_part_def accepted_def split: if_splits)

lemma check_part_dotted:
  "CHR ''.'' \<in> set p \<Longrightarrow> check_part f p = Inl (InvalidCharacters f p)"
proof -
  assume "CHR ''.'' \<in> set p"
  moreover have "\<not> is_digit (CHR ''.'')"
    by (simp add: is_digit_def)
  ultimately have "\<not> containsOnly p numerals"
    by (auto simp: containsOnly_numerals)
  then show ?thesis
    by (simp add: check_part_def)
qed

lemma ParseUint_loop_error:
  "ParseUint_loop s0 n cs = Inl e \<Longrightarrow> \<exists>k. e = NumError ''ParseUint'' s0 k"
proof (induction cs arbitrary: n)
  case Nil
  then show ?case by simp
next
  case (Cons c cs)
  then show ?case
    by (simp add: Let_def syntaxError_def rangeError_def split: if_splits) blast+
qed

lemma ParseUint_error:
  "ParseUint s = Inl e \<Longrightarrow> \<exists>k. e = NumError ''ParseUint'' s k"
  using ParseUint_loop_error [of s 0 s e]
  by (auto simp: ParseUint_def syntaxError_def split: if_splits)

lemma check_part_error:
  assumes "check_part f p = Inl e"
  shows "e = InvalidCharacters f p \<or> e = LeadingZero f p \<or> (\<exists>k. e = NumError ''ParseUint'' p k)"
  using assms ParseUint_error [of p e]
  by (simp add: check_part_def split: if_splits)

lemma NewVersion_parts_error:
  assumes "s \<noteq> []" "SplitN s ''.'' 3 = [p0, p1, p2]"
  shows "NewVersion s \<noteq> Inl WrongFieldCount" "NewVersion s \<noteq> Inl EmptyInput"
  using check_part_error [of MajorNumber p0] check_part_error [of MinorNumber p1]
    check_part_error [of PatchNumber p2]
  by (auto simp: NewVersion_parts [OF assms] split: sum.splits)

lemma NewVersion_parts_patch_fails:
  assumes "s \<noteq> []" "SplitN s ''.'' 3 = [p0, p1, p2]" "check_part PatchNumber p2 = Inl e"
  shows "isl (NewVersion s)"
  using assms(3) by (simp add: NewVersion_parts [OF assms(1,2)] split: sum.splits)

lemma NewVersion_parts_accepted2:
  assumes "s \<noteq> []" "SplitN s ''.'' 3 = [p0, p1, p2]" "accepted p0" "accepted p1"
  shows "NewVersion s =
    (case check_part PatchNumber p2 of
       Inl e \<Rightarrow> Inl e
     | Inr c \<Rightarrow> Inr \<lparr>Major = word_of_nat (decimal p0), Minor = word_of_nat (decimal p1), Patch = c\<rparr>)"
  using assms by (simp add: NewVersion_parts check_part_accepted)

lemma accepted_formatBits:
  assumes "n < 2 ^ 64"
  shows "accepted (formatBits n [])" "decimal (formatBits n []) = n"
  using assms formatBits_props [of n] formatBits_no_leading_zero [of n]
  by (simp_all add: accepted_iff)

lemma check_part_AppendUint:
  "check_part f (AppendUint [] w) = Inr w"
proof -
  have "unat w < 2 ^ 64"
    using unsigned_less [of w] by simp
  then show ?thesis
    using accepted_formatBits [of "unat w"]
    by (simp add: check_part_accepted AppendUint_def)
qed

lemma Version_String_parts:
  "Version_String v = AppendUint [] (Major v) @ CHR ''.'' # AppendUint [] (Minor v) @ CHR ''.'' # AppendUint [] (Patch v)"
  by (simp add: Version_String_def AppendUint_def)

lemma AppendUint_no_dot: "CHR ''.'' \<notin> set (AppendUint [] w)"
  using formatBits_props [of "unat w"] by (simp add: AppendUint_def)

lemma check_part_leading_zero:
  assumes "containsOnly p numerals"
  shows "check_part f p = Inl (LeadingZero g q) \<longleftrightarrow> hasLeadingZeroes p \<and> g = f \<and> q = p"
proof (cases "hasLeadingZeroes p")
  case True
  then show ?thesis
    using assms by (auto simp: check_part_def)
next
  case False
  then show ?thesis
    using assms ParseUint_error [of p "LeadingZero g q"] by (auto simp: check_part_def)
qed

lemma check_part_not_other_field:
  "f \<noteq> g \<Longrightarrow> check_part f p \<noteq> Inl (LeadingZero g q)"
  using check_part_error [of f p "LeadingZero g q"] by auto

lemma check_part_plain:
  assumes "p \<noteq> []" "containsOnly p numerals" "\<not> hasLeadingZeroes p"
  shows "check_part f p =
    (if decimal p < 2 ^ 64 then Inr (word_of_nat (decimal p))
     else Inl (NumError ''ParseUint'' p ErrRange))"
  using assms ParseUint_digits [of p]
  by (simp add: check_part_def containsOnly_numerals)

lemma check_part_empty: "check_part f [] = Inl (NumError ''ParseUint'' [] ErrSyntax)"
  by (simp add: check_part_def containsOnly_numerals hasLeadingZeroes_def ParseUint_empty)

lemma check_part_not_invalid_empty: "check_part f p \<noteq> Inl (InvalidCharacters g [])"
proof
  assume a: "check_part f p = Inl (InvalidCharacters g [])"
  then have "p = []"
    using check_part_error [OF a] by auto
  then show False
    using a by (simp add: check_part_empty)
qed

section \<open>Properties\<close>

text \<open>
  C1.  For all unsigned 64-bit integers \<open>a\<close>, \<open>b\<close>, \<open>c\<close>, parsing the rendered string of the
  version with these fields succeeds and yields the version with the fields \<open>a\<close>, \<open>b\<close>, \<open>c\<close>.
\<close>

theorem NewVersion_String:
  "NewVersion (Version_String \<lparr>Major = a, Minor = b, Patch = c\<rparr>)
     = Inr \<lparr>Major = a, Minor = b, Patch = c\<rparr>"
proof -
  define s where "s = Version_String \<lparr>Major = a, Minor = b, Patch = c\<rparr>"
  have s: "s = AppendUint [] a @ CHR ''.'' # AppendUint [] b @ CHR ''.'' # AppendUint [] c"
    by (simp add: s_def Version_String_parts)
  then have ne: "s \<noteq> []"
    by simp
  have sp: "SplitN s ''.'' 3 = [AppendUint [] a, AppendUint [] b, AppendUint [] c]"
    unfolding s by (rule SplitN3_parts) (rule AppendUint_no_dot)+
  show ?thesis
    unfolding s_def [symmetric]
    by (simp add: NewVersion_parts [OF ne sp] check_part_AppendUint)
qed

text \<open>
  C2, as the claim states it, fails: at \<open>"1..3"\<close> the three parts are \<open>"1"\<close>, \<open>""\<close>, \<open>"3"\<close>, the
  empty part passes \<open>containsOnly\<close>, and the error is the syntax error of
  \<open>strconv.ParseUint\<close>, not \<open>InvalidCharacters\<close> for the minor field.
\<close>

theorem empty_part_counterexample:
  "''1..3'' \<noteq> [] \<and> SplitN ''1..3'' ''.'' 3 = [''1'', [], ''3'']
   \<and> containsOnly [] numerals
   \<and> NewVersion ''1..3'' = Inl (NumError ''ParseUint'' [] ErrSyntax)
   \<and> NewVersion ''1..3'' \<noteq> Inl (InvalidCharacters MinorNumber [])"
proof -
  have "SplitN ''1..3'' ''.'' 3 = [''1'', [], ''3'']" by code_simp
  moreover have "containsOnly [] numerals" by code_simp
  moreover have "NewVersion ''1..3'' = Inl (NumError ''ParseUint'' [] ErrSyntax)" by code_simp
  ultimately show ?thesis by simp
qed

text \<open>
  C2, amended.  For every non-empty input that splits on \<open>'.'\<close> into exactly three parts of
  which some part is empty, parsing fails, and never with \<open>InvalidCharacters\<close> naming an
  empty text: an empty part passes the character check and the leading-zero check and
  fails the numeric parse.  When the parts before the first empty part pass their checks,
  the error is the syntax error of the numeric parser for the empty text, which carries
  that text and not the field.
\<close>

theorem empty_part_fails:
  "s \<noteq> [] \<and> SplitN s ''.'' 3 = [p0, p1, p2] \<and> (p0 = [] \<or> p1 = [] \<or> p2 = []) \<longrightarrow>
     isl (NewVersion s)
     \<and> NewVersion s \<noteq> Inl (InvalidCharacters f [])
     \<and> (p0 = [] \<longrightarrow> NewVersion s = Inl (NumError ''ParseUint'' [] ErrSyntax))
     \<and> (accepted p0 \<and> p1 = [] \<longrightarrow> NewVersion s = Inl (NumError ''ParseUint'' [] ErrSyntax))
     \<and> (accepted p0 \<and> accepted p1 \<and> p2 = [] \<longrightarrow>
          NewVersion s = Inl (NumError ''ParseUint'' [] ErrSyntax))"
proof (intro impI)
  assume a: "s \<noteq> [] \<and> SplitN s ''.'' 3 = [p0, p1, p2] \<and> (p0 = [] \<or> p1 = [] \<or> p2 = [])"
  note parts = NewVersion_parts [OF conjunct1 [OF a] conjunct1 [OF conjunct2 [OF a]]]
  have empty: "p0 = [] \<or> p1 = [] \<or> p2 = []"
    using a by simp
  have fails: "isl (NewVersion s)"
    using empty check_part_empty
    by (auto simp: parts split: sum.splits)
  have other: "NewVersion s \<noteq> Inl (InvalidCharacters f [])"
    using check_part_not_invalid_empty [of MajorNumber p0 f]
      check_part_not_invalid_empty [of MinorNumber p1 f]
      check_part_not_invalid_empty [of PatchNumber p2 f]
    by (auto simp: parts split: sum.splits)
  have first: "NewVersion s = Inl (NumError ''ParseUint'' [] ErrSyntax)" if "p0 = []"
    using that by (simp add: parts check_part_empty)
  have second: "NewVersion s = Inl (NumError ''ParseUint'' [] ErrSyntax)"
    if "accepted p0 \<and> p1 = []"
    using that by (simp add: parts check_part_accepted check_part_empty)
  have third: "NewVersion s = Inl (NumError ''ParseUint'' [] ErrSyntax)"
    if "accepted p0 \<and> accepted p1 \<and> p2 = []"
    using that by (simp add: parts check_part_accepted check_part_empty)
  show "isl (NewVersion s)
     \<and> NewVersion s \<noteq> Inl (InvalidCharacters f [])
     \<and> (p0 = [] \<longrightarrow> NewVersion s = Inl (NumError ''ParseUint'' [] ErrSyntax))
     \<and> (accepted p0 \<and> p1 = [] \<longrightarrow> NewVersion s = Inl (NumError ''ParseUint'' [] ErrSyntax))
     \<and> (accepted p0 \<and> accepted p1 \<and> p2 = [] \<longrightarrow>
          NewVersion s = Inl (NumError ''ParseUint'' [] ErrSyntax))"
    using fails other first second third by blast
qed

theorem empty_part_fails_witness:
  "''1.2.'' \<noteq> [] \<and> SplitN ''1.2.'' ''.'' 3 = [''1'', ''2'', []]
   \<and> accepted ''1'' \<and> accepted ''2''
   \<and> isl (NewVersion ''1.2.'')
   \<and> NewVersion ''1.2.'' = Inl (NumError ''ParseUint'' [] ErrSyntax)"
proof -
  have a: "''1.2.'' \<noteq> [] \<and> SplitN ''1.2.'' ''.'' 3 = [''1'', ''2'', []]" by code_simp
  have b: "accepted ''1'' \<and> accepted ''2''" by code_simp
  show ?thesis
    using a b empty_part_fails [of "''1.2.''" "''1''" "''2''" "[]" MajorNumber] by blast
qed

text \<open>
  C3.  Splitting stops after three parts: the split never yields more than three, and for
  an input with more than two dots the first two dots are the only cuts, so every further
  dot stays in the third part.  Such an input never fails with \<open>WrongFieldCount\<close>; it always
  fails, and when its first two parts pass their checks it fails with \<open>InvalidCharacters\<close>
  on the patch field, carrying the third part's raw text.  In particular \<open>"1.2.3.4"\<close> splits
  into \<open>"1"\<close>, \<open>"2"\<close>, \<open>"3.4"\<close> and fails with \<open>InvalidCharacters\<close> on patch with \<open>"3.4"\<close>.
\<close>

theorem SplitN_keeps_extra_dots:
  "length (SplitN s ''.'' 3) \<le> 3
   \<and> (2 < count_list s (CHR ''.'') \<longrightarrow>
        (\<exists>p0 p1 p2.
           SplitN s ''.'' 3 = [p0, p1, p2]
           \<and> s = p0 @ ''.'' @ p1 @ ''.'' @ p2
           \<and> CHR ''.'' \<notin> set p0 \<and> CHR ''.'' \<notin> set p1
           \<and> count_list p2 (CHR ''.'') = count_list s (CHR ''.'') - 2
           \<and> NewVersion s \<noteq> Inl WrongFieldCount
           \<and> isl (NewVersion s)
           \<and> (accepted p0 \<and> accepted p1 \<longrightarrow>
                NewVersion s = Inl (InvalidCharacters PatchNumber p2))))
   \<and> SplitN ''1.2.3.4'' ''.'' 3 = [''1'', ''2'', ''3.4'']
   \<and> NewVersion ''1.2.3.4'' = Inl (InvalidCharacters PatchNumber ''3.4'')"
proof (intro conjI impI)
  show "length (SplitN s ''.'' 3) \<le> 3"
    by (simp add: length_SplitN3)
  show "SplitN ''1.2.3.4'' ''.'' 3 = [''1'', ''2'', ''3.4'']"
    by code_simp
  show "NewVersion ''1.2.3.4'' = Inl (InvalidCharacters PatchNumber ''3.4'')"
    by code_simp
next
  assume n: "2 < count_list s (CHR ''.'')"
  then have "length (SplitN s ''.'' 3) = 3"
    by (simp add: length_SplitN3)
  then obtain p0 p1 p2 where s: "s = p0 @ CHR ''.'' # p1 @ CHR ''.'' # p2"
    and p0: "CHR ''.'' \<notin> set p0" and p1: "CHR ''.'' \<notin> set p1"
    and sp: "SplitN s ''.'' 3 = [p0, p1, p2]"
    by (rule SplitN3_cases)
  have ne: "s \<noteq> []"
    using s by simp
  have cnt: "count_list p2 (CHR ''.'') = count_list s (CHR ''.'') - 2"
    using s p0 p1 by simp
  then have dot: "CHR ''.'' \<in> set p2"
    using n by (metis count_list_0_iff less_numeral_extra(3) zero_less_diff)
  have patch: "check_part PatchNumber p2 = Inl (InvalidCharacters PatchNumber p2)"
    using dot by (rule check_part_dotted)
  have res: "NewVersion s \<noteq> Inl WrongFieldCount \<and> isl (NewVersion s)"
    using NewVersion_parts_error(1) [OF ne sp] NewVersion_parts_patch_fails [OF ne sp patch]
    by simp
  have acc: "NewVersion s = Inl (InvalidCharacters PatchNumber p2)" if "accepted p0 \<and> accepted p1"
    using that patch by (simp add: NewVersion_parts_accepted2 [OF ne sp])
  show "\<exists>p0 p1 p2.
           SplitN s ''.'' 3 = [p0, p1, p2]
           \<and> s = p0 @ ''.'' @ p1 @ ''.'' @ p2
           \<and> CHR ''.'' \<notin> set p0 \<and> CHR ''.'' \<notin> set p1
           \<and> count_list p2 (CHR ''.'') = count_list s (CHR ''.'') - 2
           \<and> NewVersion s \<noteq> Inl WrongFieldCount
           \<and> isl (NewVersion s)
           \<and> (accepted p0 \<and> accepted p1 \<longrightarrow>
                NewVersion s = Inl (InvalidCharacters PatchNumber p2))"
    using sp s p0 p1 cnt res acc by (intro exI [of _ p0] exI [of _ p1] exI [of _ p2]) simp
qed

theorem SplitN_keeps_extra_dots_witness:
  "2 < count_list ''1.2.3.4.5'' (CHR ''.'')
   \<and> (\<exists>p0 p1 p2. SplitN ''1.2.3.4.5'' ''.'' 3 = [p0, p1, p2]
        \<and> count_list p2 (CHR ''.'') = count_list ''1.2.3.4.5'' (CHR ''.'') - 2
        \<and> NewVersion ''1.2.3.4.5'' \<noteq> Inl WrongFieldCount)"
proof -
  have a: "2 < count_list ''1.2.3.4.5'' (CHR ''.'')" by simp
  show ?thesis
    using a SplitN_keeps_extra_dots [of "''1.2.3.4.5''"] by blast
qed

text \<open>
  C4.  For all strings \<open>s1\<close> and \<open>s2\<close>, the string-based equality function returns false
  (its result is a truth value, it has no error result) whenever either string fails to
  parse, and returns true exactly when both strings parse successfully and the two
  resulting version values are equal.
\<close>

theorem Equal_strings:
  "((\<exists>e. NewVersion s1 = Inl e) \<or> (\<exists>e. NewVersion s2 = Inl e) \<longrightarrow> Equal s1 s2 = False)
   \<and> (Equal s1 s2 \<longleftrightarrow> (\<exists>v. NewVersion s1 = Inr v \<and> NewVersion s2 = Inr v))"
  by (auto simp: Equal_def Version_Equal_def split: sum.splits)

theorem Equal_strings_witness:
  "NewVersion ''bad'' = Inl WrongFieldCount \<and> Equal ''bad'' ''1.2.3'' = False"
proof -
  have a: "NewVersion ''bad'' = Inl WrongFieldCount" by code_simp
  then have "(\<exists>e. NewVersion ''bad'' = Inl e) \<or> (\<exists>e. NewVersion ''1.2.3'' = Inl e)" by blast
  then show ?thesis
    using a Equal_strings [of "''bad''" "''1.2.3''"] by blast
qed

text \<open>
  C5.  For an all-digit part that the parser reaches (the parts before it pass their checks),
  parsing fails with \<open>LeadingZero\<close> for that field if and only if the part is longer than one
  byte and its first byte is \<open>'0'\<close>.  The single byte \<open>"0"\<close> is accepted and denotes zero:
  \<open>"0.0.0"\<close> parses to \<open>{0, 0, 0}\<close>, and \<open>"1.02.3"\<close> fails with \<open>LeadingZero\<close> on minor.
\<close>

theorem leading_zero_rule:
  "(s \<noteq> [] \<and> SplitN s ''.'' 3 = [p0, p1, p2] \<longrightarrow>
      (containsOnly p0 numerals \<longrightarrow>
         (NewVersion s = Inl (LeadingZero MajorNumber p0)
            \<longleftrightarrow> 1 < length p0 \<and> p0 ! 0 = CHR ''0''))
      \<and> (accepted p0 \<and> containsOnly p1 numerals \<longrightarrow>
         (NewVersion s = Inl (LeadingZero MinorNumber p1)
            \<longleftrightarrow> 1 < length p1 \<and> p1 ! 0 = CHR ''0''))
      \<and> (accepted p0 \<and> accepted p1 \<and> containsOnly p2 numerals \<longrightarrow>
         (NewVersion s = Inl (LeadingZero PatchNumber p2)
            \<longleftrightarrow> 1 < length p2 \<and> p2 ! 0 = CHR ''0'')))
   \<and> accepted ''0'' \<and> ParseUint ''0'' = Inr 0
   \<and> NewVersion ''0.0.0'' = Inr \<lparr>Major = 0, Minor = 0, Patch = 0\<rparr>
   \<and> NewVersion ''1.02.3'' = Inl (LeadingZero MinorNumber ''02'')"
proof (intro conjI impI)
  show "accepted ''0''" by code_simp
  show "ParseUint ''0'' = Inr 0" by code_simp
  show "NewVersion ''0.0.0'' = Inr \<lparr>Major = 0, Minor = 0, Patch = 0\<rparr>" by code_simp
  show "NewVersion ''1.02.3'' = Inl (LeadingZero MinorNumber ''02'')" by code_simp
next
  assume a: "s \<noteq> [] \<and> SplitN s ''.'' 3 = [p0, p1, p2]"
  note parts = NewVersion_parts [OF conjunct1 [OF a] conjunct2 [OF a]]
  show "NewVersion s = Inl (LeadingZero MajorNumber p0) \<longleftrightarrow> 1 < length p0 \<and> p0 ! 0 = CHR ''0''"
    if "containsOnly p0 numerals"
    using check_part_leading_zero [OF that, of MajorNumber MajorNumber p0]
      check_part_not_other_field [of MinorNumber MajorNumber p1 p0]
      check_part_not_other_field [of PatchNumber MajorNumber p2 p0]
    by (auto simp: parts hasLeadingZeroes_def split: sum.splits)
  show "NewVersion s = Inl (LeadingZero MinorNumber p1) \<longleftrightarrow> 1 < length p1 \<and> p1 ! 0 = CHR ''0''"
    if "accepted p0 \<and> containsOnly p1 numerals"
    using that check_part_leading_zero [of p1 MinorNumber MinorNumber p1]
      check_part_not_other_field [of PatchNumber MinorNumber p2 p1]
    by (auto simp: parts check_part_accepted hasLeadingZeroes_def split: sum.splits)
  show "NewVersion s = Inl (LeadingZero PatchNumber p2) \<longleftrightarrow> 1 < length p2 \<and> p2 ! 0 = CHR ''0''"
    if "accepted p0 \<and> accepted p1 \<and> containsOnly p2 numerals"
    using that check_part_leading_zero [of p2 PatchNumber PatchNumber p2]
    by (auto simp: parts check_part_accepted hasLeadingZeroes_def split: sum.splits)
qed

theorem leading_zero_rule_witness:
  "''1.02.3'' \<noteq> [] \<and> SplitN ''1.02.3'' ''.'' 3 = [''1'', ''02'', ''3'']
   \<and> accepted ''1'' \<and> containsOnly ''02'' numerals
   \<and> 1 < length ''02'' \<and> ''02'' ! 0 = CHR ''0''
   \<and> NewVersion ''1.02.3'' = Inl (LeadingZero MinorNumber ''02'')"
proof -
  have a: "''1.02.3'' \<noteq> [] \<and> SplitN ''1.02.3'' ''.'' 3 = [''1'', ''02'', ''3'']" by code_simp
  have b: "accepted ''1'' \<and> containsOnly ''02'' numerals" by code_simp
  have c: "1 < length ''02'' \<and> ''02'' ! 0 = CHR ''0''" by simp
  show ?thesis
    using a b c leading_zero_rule [of "''1.02.3''" "''1''" "''02''" "''3''"] by blast
qed

text \<open>
  C6.  For all version values \<open>v1\<close> and \<open>v2\<close>, the value-level equality predicate returns
  true if and only if the major fields are equal, the minor fields are equal, and the
  patch fields are equal.
\<close>

theorem Version_Equal_fields:
  "Version_Equal v1 v2 \<longleftrightarrow>
     Major v1 = Major v2 \<and> Minor v1 = Minor v2 \<and> Patch v1 = Patch v2"
  by (simp add: Version_Equal_def)

text \<open>
  C7.  Parsing the empty string fails with \<open>EmptyInput\<close>; parsing a non-empty string whose
  split on \<open>'.'\<close> yields fewer than three parts fails with \<open>WrongFieldCount\<close>.  The split
  yields fewer than three parts exactly when the string has fewer than two dots.
\<close>

theorem NewVersion_empty_or_short:
  "NewVersion [] = Inl EmptyInput
   \<and> (s \<noteq> [] \<and> length (SplitN s ''.'' 3) < 3 \<longrightarrow> NewVersion s = Inl WrongFieldCount)
   \<and> (length (SplitN s ''.'' 3) < 3 \<longleftrightarrow> count_list s (CHR ''.'') < 2)"
proof (intro conjI impI)
  show "NewVersion [] = Inl EmptyInput"
    by (simp add: NewVersion_def)
  show "NewVersion s = Inl WrongFieldCount" if "s \<noteq> [] \<and> length (SplitN s ''.'' 3) < 3"
    using that by (simp add: NewVersion_few_parts)
  show "length (SplitN s ''.'' 3) < 3 \<longleftrightarrow> count_list s (CHR ''.'') < 2"
    by (simp add: length_SplitN3) arith
qed

theorem NewVersion_empty_or_short_witness:
  "''1.2'' \<noteq> [] \<and> length (SplitN ''1.2'' ''.'' 3) < 3 \<and> NewVersion ''1.2'' = Inl WrongFieldCount"
proof -
  have a: "''1.2'' \<noteq> []" by simp
  have b: "length (SplitN ''1.2'' ''.'' 3) < 3" by code_simp
  show ?thesis
    using a b NewVersion_empty_or_short [of "''1.2''"] by blast
qed

text \<open>
  C8.  A non-empty all-digit part is read by the numeric parser as an unsigned decimal
  number of 64 bits: the result is the number the digits denote when that is at most
  \<open>2^64 - 1\<close>, and the range error carrying the part's text otherwise.  So a part is
  accepted exactly when it is well formed and denotes at most \<open>2^64 - 1\<close>; parsing fails
  with the range error of a well-formed part that denotes more, once the parts before it
  are accepted; three accepted parts give the version of the three numbers.  Every value
  up to \<open>2^64 - 1\<close> is accepted: its decimal rendering is an accepted part that parses
  to it.
\<close>

theorem ParseUint_range:
  "(p \<noteq> [] \<and> containsOnly p numerals \<longrightarrow>
      ParseUint p =
        (if decimal p < 2 ^ 64 then Inr (word_of_nat (decimal p))
         else Inl (NumError ''ParseUint'' p ErrRange)))
   \<and> (accepted p \<longleftrightarrow> well_formed p \<and> decimal p < 2 ^ 64)
   \<and> (s \<noteq> [] \<and> SplitN s ''.'' 3 = [p0, p1, p2] \<longrightarrow>
        (well_formed p0 \<and> 2 ^ 64 \<le> decimal p0 \<longrightarrow>
           NewVersion s = Inl (NumError ''ParseUint'' p0 ErrRange))
        \<and> (accepted p0 \<and> well_formed p1 \<and> 2 ^ 64 \<le> decimal p1 \<longrightarrow>
           NewVersion s = Inl (NumError ''ParseUint'' p1 ErrRange))
        \<and> (accepted p0 \<and> accepted p1 \<and> well_formed p2 \<and> 2 ^ 64 \<le> decimal p2 \<longrightarrow>
           NewVersion s = Inl (NumError ''ParseUint'' p2 ErrRange))
        \<and> (accepted p0 \<and> accepted p1 \<and> accepted p2 \<longrightarrow>
           (\<exists>v. NewVersion s = Inr v \<and> unat (Major v) = decimal p0
                \<and> unat (Minor v) = decimal p1 \<and> unat (Patch v) = decimal p2)))
   \<and> (n < 2 ^ 64 \<longrightarrow>
        unat (word_of_nat n :: uint64) = n
        \<and> accepted (formatBits n []) \<and> decimal (formatBits n []) = n
        \<and> ParseUint (formatBits n []) = Inr (word_of_nat n))"
proof (intro conjI impI)
  show "ParseUint p =
        (if decimal p < 2 ^ 64 then Inr (word_of_nat (decimal p))
         else Inl (NumError ''ParseUint'' p ErrRange))"
    if "p \<noteq> [] \<and> containsOnly p numerals"
    using that ParseUint_digits [of p] by (simp add: containsOnly_numerals)
  show "accepted p \<longleftrightarrow> well_formed p \<and> decimal p < 2 ^ 64"
    by (auto simp: accepted_iff well_formed_def containsOnly_numerals)
next
  assume a: "s \<noteq> [] \<and> SplitN s ''.'' 3 = [p0, p1, p2]"
  note parts = NewVersion_parts [OF conjunct1 [OF a] conjunct2 [OF a]]
  have over: "check_part f q = Inl (NumError ''ParseUint'' q ErrRange)"
    if "well_formed q" "2 ^ 64 \<le> decimal q" for f q
    using that by (simp add: check_part_plain well_formed_def)
  have fits: "unat (word_of_nat (decimal q) :: uint64) = decimal q" if "accepted q" for q
    using that by (simp add: accepted_iff unat_of_nat)
  show "NewVersion s = Inl (NumError ''ParseUint'' p0 ErrRange)"
    if "well_formed p0 \<and> 2 ^ 64 \<le> decimal p0"
    using that by (simp add: parts over)
  show "NewVersion s = Inl (NumError ''ParseUint'' p1 ErrRange)"
    if "accepted p0 \<and> well_formed p1 \<and> 2 ^ 64 \<le> decimal p1"
    using that by (simp add: parts check_part_accepted over)
  show "NewVersion s = Inl (NumError ''ParseUint'' p2 ErrRange)"
    if "accepted p0 \<and> accepted p1 \<and> well_formed p2 \<and> 2 ^ 64 \<le> decimal p2"
    using that by (simp add: parts check_part_accepted over)
  show "\<exists>v. NewVersion s = Inr v \<and> unat (Major v) = decimal p0
          \<and> unat (Minor v) = decimal p1 \<and> unat (Patch v) = decimal p2"
    if "accepted p0 \<and> accepted p1 \<and> accepted p2"
    using that by (simp add: parts check_part_accepted fits)
next
  assume n: "n < 2 ^ 64"
  show "unat (word_of_nat n :: uint64) = n"
    using n by (simp add: unat_of_nat)
  show acc: "accepted (formatBits n [])" and dec: "decimal (formatBits n []) = n"
    using n by (rule accepted_formatBits)+
  show "ParseUint (formatBits n []) = Inr (word_of_nat n)"
    using check_part_accepted [OF acc, of MajorNumber] acc dec
    by (simp add: check_part_def accepted_def)
qed

theorem ParseUint_range_witness:
  "''1.18446744073709551616.3'' \<noteq> []
   \<and> SplitN ''1.18446744073709551616.3'' ''.'' 3 = [''1'', ''18446744073709551616'', ''3'']
   \<and> accepted ''1'' \<and> well_formed ''18446744073709551616''
   \<and> decimal ''18446744073709551616'' = 2 ^ 64
   \<and> NewVersion ''1.18446744073709551616.3''
       = Inl (NumError ''ParseUint'' ''18446744073709551616'' ErrRange)"
proof -
  have a: "''1.18446744073709551616.3'' \<noteq> []
      \<and> SplitN ''1.18446744073709551616.3'' ''.'' 3 = [''1'', ''18446744073709551616'', ''3'']"
    using SplitN3_parts [of "CHR ''.''" "''1''" "''18446744073709551616''" "''3''"] by simp
  have b: "accepted ''1''"
    by code_simp
  have c: "well_formed ''18446744073709551616''"
    by (simp add: well_formed_def containsOnly_numerals is_digit_def hasLeadingZeroes_def)
  have d: "decimal ''18446744073709551616'' = 2 ^ 64"
    by (simp add: decimal_def digit_val_def)
  then have e: "(2 :: nat) ^ 64 \<le> decimal ''18446744073709551616''"
    by (simp only: order_refl)
  show ?thesis
    using a b c d e ParseUint_range [of "[]" "''1.18446744073709551616.3''" "''1''"
        "''18446744073709551616''" "''3''" 0]
    by blast
qed

text \<open>
  C9.  If the flag package is already in the parsed state when \<open>CreateFlagAndParse\<close> is
  called, the call returns the \<open>AlreadyParsed\<close> error whatever the version string is (valid
  or not) and whatever the command line holds, and leaves the flag package as it was: no
  flag is defined and nothing is parsed.
\<close>

theorem CreateFlagAndParse_already_parsed:
  "parsed fs \<Longrightarrow> CreateFlagAndParse parse s fs = (Returned (Some AlreadyParsed), fs)"
  by (simp add: CreateFlagAndParse_def)

theorem CreateFlagAndParse_already_parsed_witness:
  "parsed \<lparr>parsed = True, formal = []\<rparr>
   \<and> NewVersion ''bad'' = Inl WrongFieldCount
   \<and> CreateFlagAndParse (\<lambda>fs. Some True) ''bad'' \<lparr>parsed = True, formal = []\<rparr>
       = (Returned (Some AlreadyParsed), \<lparr>parsed = True, formal = []\<rparr>)"
proof -
  have a: "parsed \<lparr>parsed = True, formal = []\<rparr>" by simp
  have b: "NewVersion ''bad'' = Inl WrongFieldCount" by code_simp
  show ?thesis
    using a b CreateFlagAndParse_already_parsed [OF a, of "\<lambda>fs. Some True" "''bad''"] by simp
qed

text \<open>
  C10.  For every string \<open>s\<close> that \<open>NewVersion\<close> accepts, rendering the resulting version
  gives back \<open>s\<close>, byte for byte.
\<close>

theorem String_NewVersion:
  "NewVersion s = Inr v \<Longrightarrow> Version_String v = s"
proof -
  assume ok: "NewVersion s = Inr v"
  have ne: "s \<noteq> []"
    using ok by (auto simp: NewVersion_def)
  have "length (SplitN s ''.'' 3) = 3"
    using ok NewVersion_few_parts [OF ne] by auto
  then obtain p0 p1 p2 where s: "s = p0 @ CHR ''.'' # p1 @ CHR ''.'' # p2"
    and sp: "SplitN s ''.'' 3 = [p0, p1, p2]"
    by (rule SplitN3_cases)
  obtain x y z where cx: "check_part MajorNumber p0 = Inr x"
    and cy: "check_part MinorNumber p1 = Inr y"
    and cz: "check_part PatchNumber p2 = Inr z"
    and v: "v = \<lparr>Major = x, Minor = y, Patch = z\<rparr>"
    using ok by (auto simp: NewVersion_parts [OF ne sp] split: sum.splits)
  have rendered: "AppendUint [] w = p" if "check_part f p = Inr w" for f p w
  proof -
    have acc: "accepted p"
      using that by (rule check_part_Inr)
    then have w: "w = word_of_nat (decimal p)"
      using that by (simp add: check_part_accepted)
    have "decimal p < 2 ^ 64"
      using acc by (simp add: accepted_iff)
    then have "unat w = decimal p"
      by (simp add: w unat_of_nat)
    then show ?thesis
      using acc by (simp add: AppendUint_def accepted_iff formatBits_decimal)
  qed
  show "Version_String v = s"
    by (simp add: Version_String_parts v s rendered [OF cx] rendered [OF cy] rendered [OF cz])
qed

theorem String_NewVersion_witness:
  "NewVersion ''10.0.203'' = Inr \<lparr>Major = 10, Minor = 0, Patch = 203\<rparr>
   \<and> Version_String \<lparr>Major = 10, Minor = 0, Patch = 203\<rparr> = ''10.0.203''"
proof -
  have a: "NewVersion ''10.0.203'' = Inr \<lparr>Major = 10, Minor = 0, Patch = 203\<rparr>"
    by code_simp
  show ?thesis
    using a String_NewVersion [OF a] by simp
qed

end
